theory Spec2Isabelle
  imports Main
begin

section \<open>Errors and tokens\<close>

text \<open>
  The exceptions the modelled code raises. A function that can raise returns
  \<open>error + 'a\<close>, with \<open>Inl\<close> for the exception.
\<close>

datatype error =
    ValueError
  | KeyError string
  | TypeError
  | AssertionError
  | NotImplementedError

text \<open>
  Modelled from the spec: the class \<open>Token\<close> (module \<open>parser\<close>, imported by
  \<open>syntax_tree.py\<close> and \<open>violation.py\<close>) is not among the sources. The spec gives a
  token a kind out of WHITESPACE, COMMENT, KEYWORD, IDENTIFIER, LITERAL, OPERATOR, COMMA,
  BRACKET_LEFT, BRACKET_RIGHT and a catch-all kind, its exact source text (the attribute
  \<open>word\<close> read by \<open>Node.text\<close>), and a length, which is the length of that text.
\<close>

datatype token_kind =
    WHITESPACE | COMMENT | KEYWORD | IDENTIFIER | LITERAL | OPERATOR
  | COMMA | BRACKET_LEFT | BRACKET_RIGHT | UNKNOWN

record token =
  kind :: token_kind
  word :: string

text \<open>Modelled from the spec: \<open>Token.__len__\<close>, the length of the token's text.\<close>

definition token_len :: "token \<Rightarrow> nat" where
  "token_len t = length (word t)"

section \<open>Python slices\<close>

text \<open>\<open>xs[i:]\<close> and \<open>xs[0:j]\<close>: a negative bound counts from the end, and bounds are clamped.\<close>

definition slice_from :: "'a list \<Rightarrow> int \<Rightarrow> 'a list" where
  "slice_from xs i =
     (if i < 0 then drop (nat (int (length xs) + i)) xs else drop (nat i) xs)"

definition slice_to :: "'a list \<Rightarrow> int \<Rightarrow> 'a list" where
  "slice_to xs j =
     (if j < 0 then take (nat (int (length xs) + j)) xs else take (nat j) xs)"

section \<open>Node\<close>

record node =
  line_num :: int
  tokens :: "token list"

text \<open>
  \<open>Node.__init__\<close>: a missing token list is the empty list; the assignment to
  \<open>line_num\<close> goes through the property setter, which raises on a negative value.
\<close>

definition Node_init :: "int \<Rightarrow> token list option \<Rightarrow> error + node" where
  "Node_init ln toks =
     (let toks' = (case toks of None \<Rightarrow> [] | Some ts \<Rightarrow> ts)
      in if ln < 0 then Inl ValueError
         else Inr \<lparr>line_num = ln, tokens = toks'\<rparr>)"


definition node_indent :: "node \<Rightarrow> int" where
  "node_indent n =
     (if length (tokens n) = 0 then 0
      else let head = tokens n ! 0
           in if kind head = WHITESPACE then int (token_len head) else 0)"

definition get_position :: "node \<Rightarrow> int \<Rightarrow> int" where
  "get_position n index =
     (let index' = max index 0
      in int (sum_list (map token_len (slice_to (tokens n) index'))) + 1)"

text \<open>
  The loop of \<open>ltrip_kind\<close>: the counter \<open>cut\<close> (here \<open>c\<close>) is incremented for each
  leading token whose kind is among \<open>args\<close>, and the loop breaks at the first other token.
\<close>

fun ltrip_cut :: "token_kind list \<Rightarrow> token list \<Rightarrow> int \<Rightarrow> int" where
  "ltrip_cut args [] c = c"
| "ltrip_cut args (t # ts) c =
     (if kind t \<in> set args then ltrip_cut args ts (c + 1) else c)"

text \<open>The loop of \<open>rtrip_kind\<close>, over the reversed token list, decrementing the counter.\<close>

fun rtrip_cut :: "token_kind list \<Rightarrow> token list \<Rightarrow> int \<Rightarrow> int" where
  "rtrip_cut args [] c = c"
| "rtrip_cut args (t # ts) c =
     (if kind t \<in> set args then rtrip_cut args ts (c - 1) else c)"

text \<open>
  The trim methods, in state-passing style: each returns the receiver as the call leaves it,
  and the method's result. The bodies read \<open>self.tokens\<close> and \<open>self.line_num\<close> and assign
  to neither; the result is built by \<open>Node(...)\<close> from a slice, which is a new list.
\<close>

definition ltrip_kind :: "node \<Rightarrow> token_kind list \<Rightarrow> node \<times> (error + node)" where
  "ltrip_kind self args =
     (let c = ltrip_cut args (tokens self) (- 1)
      in (self, Node_init (line_num self) (Some (slice_from (tokens self) (c + 1)))))"

definition rtrip_kind :: "node \<Rightarrow> token_kind list \<Rightarrow> node \<times> (error + node)" where
  "rtrip_kind self args =
     (let c = rtrip_cut args (rev (tokens self)) (int (length (tokens self)))
      in (self, Node_init (line_num self) (Some (slice_to (tokens self) c))))"

definition trip_kind :: "node \<Rightarrow> token_kind list \<Rightarrow> node \<times> (error + node)" where
  "trip_kind self args =
     (case ltrip_kind self args of
        (self', Inl e) \<Rightarrow> (self', Inl e)
      | (self', Inr m) \<Rightarrow> (self', snd (rtrip_kind m args)))"

section \<open>SyntaxTree\<close>

text \<open>
  \<open>SyntaxTree\<close> objects are mutable and shared: \<open>sqlptree\<close> appends to the \<open>leaves\<close> of an
  object it reaches through \<open>parent\<close> references. The objects live in a store, a list of
  objects in the order of their creation; a reference is the position of an object in it.
\<close>

record syntax_tree =
  depth :: int
  leaves :: "nat list"
  parent :: "nat option"
  node :: node
  is_abstract :: bool

type_synonym store = "syntax_tree list"

text \<open>
  \<open>SyntaxTree.__init__\<close> writes \<open>_depth\<close> directly and builds the \<open>Node\<close>, whose
  constructor may raise.
\<close>

definition SyntaxTree_init ::
  "int \<Rightarrow> int \<Rightarrow> token list option \<Rightarrow> nat option \<Rightarrow> bool \<Rightarrow> error + syntax_tree" where
  "SyntaxTree_init d ln toks par abstract =
     (case Node_init ln toks of
        Inl e \<Rightarrow> Inl e
      | Inr nd \<Rightarrow>
          Inr \<lparr>depth = d, leaves = [], parent = par, node = nd, is_abstract = abstract\<rparr>)"

text \<open>The property setter of \<open>depth\<close>, which \<open>__init__\<close> does not go through.\<close>

definition set_depth :: "syntax_tree \<Rightarrow> int \<Rightarrow> error + syntax_tree" where
  "set_depth t v = (if v < 0 then Inl ValueError else Inr (t\<lparr>depth := v\<rparr>))"

definition tree_line_num :: "syntax_tree \<Rightarrow> int" where
  "tree_line_num t = line_num (node t)"


definition tree_indent :: "syntax_tree \<Rightarrow> int" where
  "tree_indent t = node_indent (node t)"

definition tree_get_position :: "syntax_tree \<Rightarrow> int \<Rightarrow> int" where
  "tree_get_position t index = get_position (node t) index"

definition add_leaf :: "store \<Rightarrow> nat \<Rightarrow> nat \<Rightarrow> store" where
  "add_leaf s a leaf = s[a := (s ! a)\<lparr>leaves := leaves (s ! a) @ [leaf]\<rparr>]"

definition ignore_token :: "token list \<Rightarrow> token list" where
  "ignore_token toks =
     (if length toks = 0 then []
      else let ignore_kinds = [WHITESPACE]
           in filter (\<lambda>t. kind t \<notin> set ignore_kinds) toks)"

text \<open>
  The inner loop of \<open>sqlptree\<close>: while the indent of the line is at most the indent of
  \<open>parent_vertex\<close> and \<open>parent_vertex\<close> is not at depth 0, move to its parent. In a store
  with a cycle of \<open>parent\<close> references the loop does not return, which is the value \<open>None\<close>.
\<close>

partial_function (option) climb :: "store \<Rightarrow> int \<Rightarrow> nat \<Rightarrow> (error + nat) option" where
  "climb s indent parent_vertex =
     (if indent \<le> tree_indent (s ! parent_vertex) \<and> 0 < depth (s ! parent_vertex)
      then (case parent (s ! parent_vertex) of
              None \<Rightarrow> Some (Inl AssertionError)
            | Some p \<Rightarrow> climb s indent p)
      else Some (Inr parent_vertex))"

declare climb.simps [code]

text \<open>
  The outer loop of \<open>sqlptree\<close> over \<open>enumerate(token_list)\<close>. The new object is created at
  the end of the store, added to the leaves of \<open>parent_vertex\<close>, and becomes \<open>parent_vertex\<close>.
\<close>

fun sqlptree_loop ::
  "bool \<Rightarrow> store \<Rightarrow> nat \<Rightarrow> (nat \<times> token list) list \<Rightarrow> (error + store) option" where
  "sqlptree_loop abstract s parent_vertex [] = Some (Inr s)"
| "sqlptree_loop abstract s parent_vertex ((ln, toks0) # rest) =
     (let toks = (if abstract then ignore_token toks0 else toks0)
      in if abstract \<and> toks = [] then sqlptree_loop abstract s parent_vertex rest
         else
           let indent = (case toks of
                           [] \<Rightarrow> 0
                         | t # _ \<Rightarrow> if kind t = WHITESPACE then int (length (word t)) else 0)
           in case climb s indent parent_vertex of
                None \<Rightarrow> None
              | Some (Inl e) \<Rightarrow> Some (Inl e)
              | Some (Inr pv) \<Rightarrow>
                  (case SyntaxTree_init (depth (s ! pv) + 1) (int ln + 1) (Some toks)
                          (Some pv) abstract of
                     Inl e \<Rightarrow> Some (Inl e)
                   | Inr t \<Rightarrow>
                       sqlptree_loop abstract (add_leaf (s @ [t]) pv (length s))
                         (length s) rest))"

text \<open>
  \<open>SyntaxTree.sqlptree\<close>. The tokenizer \<open>parse_sql\<close> (module \<open>parser\<close>) is not among the
  sources and is a parameter. The result is the store; the returned root is the object at
  position 0.
\<close>

definition sqlptree ::
  "(string \<Rightarrow> token list list) \<Rightarrow> string \<Rightarrow> bool \<Rightarrow> string \<Rightarrow> (error + store) option" where
  "sqlptree parse_sql sql abstract sql_type =
     (if sql_type \<noteq> ''StandardSQL'' then Some (Inl NotImplementedError)
      else
        let token_list = parse_sql sql
        in case SyntaxTree_init 0 0 None None abstract of
             Inl e \<Rightarrow> Some (Inl e)
           | Inr root \<Rightarrow> sqlptree_loop abstract [root] 0 (List.enumerate 0 token_list))"





text \<open>
  \<open>str.split("\n")\<close>, which states what a lossless tokenizer returns: one token list for
  each of these lines.
\<close>

fun split_nl :: "string \<Rightarrow> string list" where
  "split_nl [] = [[]]"
| "split_nl (c # cs) =
     (if c = CHR 0x0A then [] # split_nl cs
      else (case split_nl cs of
              [] \<Rightarrow> [[c]]
            | l # ls \<Rightarrow> (c # l) # ls))"

section \<open>Violations\<close>

datatype code =
    INDENT_STEPS
  | WHITESPACE_MULTIPLE | WHITESPACE_AFTER_COMMA | WHITESPACE_BEFORE_COMMA
  | WHITESPACE_AFTER_BRACKET | WHITESPACE_BEFORE_BRACKET
  | WHITESPACE_AFTER_OPERATOR | WHITESPACE_BEFORE_OPERATOR
  | COMMA_HEAD | COMMA_END
  | KEYWORD_UPPER | KEYWORD_UPPER_HEAD | KEYWORD_LOWER
  | JOIN_TABLE | JOIN_CONTEXT
  | LINE_BlANK_MULTIPLE | LINE_ONLY_WHITESPACE | LINE_BREAK_BEFORE | LINE_BREAK_AFTER

text \<open>The value of each member of the enumeration \<open>Code\<close>: its code and its template.\<close>

fun code_value :: "code \<Rightarrow> string \<times> string" where
  "code_value INDENT_STEPS =
     (''E101'', ''indent steps must be {expected} multiples, but {actual} spaces'')"
| "code_value WHITESPACE_MULTIPLE = (''E201'', ''there are multiple whitespaces'')"
| "code_value WHITESPACE_AFTER_COMMA = (''E202'', ''whitespace must be after comma: {target}'')"
| "code_value WHITESPACE_BEFORE_COMMA = (''E203'', ''whitespace must not be before comma: ,'')"
| "code_value WHITESPACE_AFTER_BRACKET =
     (''E204'', ''whitespace must not be after bracket: {target}'')"
| "code_value WHITESPACE_BEFORE_BRACKET =
     (''E205'', ''whitespace must not be before bracket: {target}'')"
| "code_value WHITESPACE_AFTER_OPERATOR =
     (''E206'', ''whitespace must be after binary operator: {target}'')"
| "code_value WHITESPACE_BEFORE_OPERATOR =
     (''E207'', ''whitespace must be before binary operator: {target}'')"
| "code_value COMMA_HEAD = (''E301'', ''comma must be head of line'')"
| "code_value COMMA_END = (''E302'', ''comma must be end of line'')"
| "code_value KEYWORD_UPPER =
     (''E401'', ''reserved keywords must be upper case: {actual} -> {expected}'')"
| "code_value KEYWORD_UPPER_HEAD =
     (''E402'', ''a head of reserved keywords must be upper case: {actual} -> {expected}'')"
| "code_value KEYWORD_LOWER =
     (''E403'', ''reserved keywords must be lower case: {actual} -> {expected}'')"
| "code_value JOIN_TABLE = (''E501'', ''table_name must be at the same line as join context'')"
| "code_value JOIN_CONTEXT = (''E502'', ''join context must be fully: {actual} -> {expected}'')"
| "code_value LINE_BlANK_MULTIPLE = (''E601'', ''there are multiple blank lines'')"
| "code_value LINE_ONLY_WHITESPACE = (''E602'', ''this line has only whitespace'')"
| "code_value LINE_BREAK_BEFORE = (''E603'', ''expected to break line after: {target}'')"
| "code_value LINE_BREAK_AFTER = (''E604'', ''expected to break line after: {target}'')"

definition template :: "code \<Rightarrow> string" where
  "template c = snd (code_value c)"

text \<open>
  The values passed as keyword arguments: strings, integers and token kinds. The kind
  constants \<open>Token.COMMA\<close>, ... are values of their own, equal to no string.
\<close>

datatype pyval = PyStr string | PyInt int | PyKind token_kind

type_synonym kwargs = "string \<rightharpoonup> pyval"

record violation =
  tree :: syntax_tree
  pos :: int
  code :: code
  params :: kwargs

text \<open>
  A call \<open>f(a, ..., **kw)\<close> raises \<open>TypeError\<close> when \<open>kw\<close> has a key that is the name of
  a parameter of \<open>f\<close> already given by position: the argument would be given twice.
\<close>

definition repeated_argument :: "kwargs \<Rightarrow> string list \<Rightarrow> bool" where
  "repeated_argument kw names \<longleftrightarrow> (\<exists>n\<in>set names. kw n \<noteq> None)"

text \<open>
  \<open>Violation.__init__(self, tree, pos, code, **kwargs)\<close>, called with \<open>tree\<close>, \<open>pos\<close> and
  \<open>code\<close> by position.
\<close>

definition Violation_init :: "syntax_tree \<Rightarrow> int \<Rightarrow> code \<Rightarrow> kwargs \<Rightarrow> error + violation" where
  "Violation_init t p c kw =
     (if repeated_argument kw [''self'', ''tree'', ''pos'', ''code''] then Inl TypeError
      else Inr \<lparr>tree = t, pos = p, code = c, params = kw\<rparr>)"

text \<open>\<open>str\<close> of a value, as \<open>str.format\<close> renders it.\<close>

fun str_nat :: "nat \<Rightarrow> string" where
  "str_nat n =
     (if n < 10 then [''0123456789'' ! n]
      else str_nat (n div 10) @ [''0123456789'' ! (n mod 10)])"

definition str_int :: "int \<Rightarrow> string" where
  "str_int i = (if i < 0 then CHR ''-'' # str_nat (nat (- i)) else str_nat (nat i))"

text \<open>
  Modelled from the spec: the values of the kind constants of \<open>Token\<close> are not among the
  sources; a kind is rendered by the name of its constant.
\<close>

fun kind_name :: "token_kind \<Rightarrow> string" where
  "kind_name WHITESPACE = ''WHITESPACE''"
| "kind_name COMMENT = ''COMMENT''"
| "kind_name KEYWORD = ''KEYWORD''"
| "kind_name IDENTIFIER = ''IDENTIFIER''"
| "kind_name LITERAL = ''LITERAL''"
| "kind_name OPERATOR = ''OPERATOR''"
| "kind_name COMMA = ''COMMA''"
| "kind_name BRACKET_LEFT = ''BRACKET_LEFT''"
| "kind_name BRACKET_RIGHT = ''BRACKET_RIGHT''"
| "kind_name UNKNOWN = ''UNKNOWN''"

fun py_str :: "pyval \<Rightarrow> string" where
  "py_str (PyStr s) = s"
| "py_str (PyInt i) = str_int i"
| "py_str (PyKind k) = kind_name k"

text \<open>
  \<open>template.format(**kw)\<close> for templates of literal text and replacement fields \<open>{name}\<close>,
  the only forms in the templates of \<open>Code\<close>: the text is copied, a field is replaced by the
  value of its name in \<open>kw\<close>, and a name that \<open>kw\<close> lacks raises \<open>KeyError\<close> with that name.
  The second argument is the name of the field being read, if any. A brace left open and a
  closing brace outside a field raise \<open>ValueError\<close>.
\<close>

fun format_from :: "kwargs \<Rightarrow> string option \<Rightarrow> string \<Rightarrow> error + string" where
  "format_from kw None [] = Inr []"
| "format_from kw (Some f) [] = Inl ValueError"
| "format_from kw None (c # cs) =
     (if c = CHR ''{'' then format_from kw (Some []) cs
      else if c = CHR ''}'' then Inl ValueError
      else (case format_from kw None cs of
              Inl e \<Rightarrow> Inl e
            | Inr out \<Rightarrow> Inr (c # out)))"
| "format_from kw (Some f) (c # cs) =
     (if c = CHR ''}'' then
        (case kw f of
           None \<Rightarrow> Inl (KeyError f)
         | Some v \<Rightarrow>
             (case format_from kw None cs of
                Inl e \<Rightarrow> Inl e
              | Inr out \<Rightarrow> Inr (py_str v @ out)))
      else format_from kw (Some (f @ [c])) cs)"

definition format :: "string \<Rightarrow> kwargs \<Rightarrow> error + string" where
  "format tmpl kw = format_from kw None tmpl"

text \<open>
  \<open>Violation.get_message\<close>. The call passes \<open>line\<close> and \<open>pos\<close> besides \<open>**self.params\<close>:
  a parameter of one of these two names is a repeated keyword argument, a \<open>TypeError\<close>.
\<close>

definition get_message :: "violation \<Rightarrow> error + string" where
  "get_message v =
     (let tmpl = ''(L{line}, {pos}): '' @ template (code v)
      in if params v ''line'' \<noteq> None \<or> params v ''pos'' \<noteq> None then Inl TypeError
         else format tmpl
                ((params v)(''line'' \<mapsto> PyInt (line_num (node (tree v))),
                            ''pos'' \<mapsto> PyInt (pos v))))"

subsection \<open>The specialised constructors\<close>

text \<open>
  Each constructor is called with \<open>tree\<close> and \<open>pos\<close> by position
  (\<open>CommaPositionViolation\<close> also with \<open>comma_position\<close>) and the keyword arguments \<open>kw\<close>.
  A key of \<open>kw\<close> that names one of these parameters, or \<open>self\<close>, raises \<open>TypeError\<close> at the
  call, before the body runs; the key \<open>code\<close> is accepted there and raises \<open>TypeError\<close> in
  the call of \<open>Violation.__init__\<close>, which ends the body.
\<close>

definition IndentStepsViolation :: "syntax_tree \<Rightarrow> int \<Rightarrow> kwargs \<Rightarrow> error + violation" where
  "IndentStepsViolation t p kw =
     (if repeated_argument kw [''self'', ''tree'', ''pos''] then Inl TypeError
      else Violation_init t p INDENT_STEPS kw)"

definition KeywordStyleViolation :: "syntax_tree \<Rightarrow> int \<Rightarrow> kwargs \<Rightarrow> error + violation" where
  "KeywordStyleViolation t p kw =
     (if repeated_argument kw [''self'', ''tree'', ''pos''] then Inl TypeError
      else case kw ''style'' of
        None \<Rightarrow> Inl (KeyError ''style must be passed.'')
      | Some style \<Rightarrow>
          if style = PyStr ''upper-all'' then Violation_init t p KEYWORD_UPPER kw
          else if style = PyStr ''upper-head'' then Violation_init t p KEYWORD_UPPER_HEAD kw
          else if style = PyStr ''lower'' then Violation_init t p KEYWORD_LOWER kw
          else Inl ValueError)"


definition MultiSpacesViolation :: "syntax_tree \<Rightarrow> int \<Rightarrow> kwargs \<Rightarrow> error + violation" where
  "MultiSpacesViolation t p kw =
     (if repeated_argument kw [''self'', ''tree'', ''pos''] then Inl TypeError
      else Violation_init t p WHITESPACE_MULTIPLE kw)"

definition WhitespaceViolation :: "syntax_tree \<Rightarrow> int \<Rightarrow> kwargs \<Rightarrow> error + violation" where
  "WhitespaceViolation t p kw =
     (if repeated_argument kw [''self'', ''tree'', ''pos''] then Inl TypeError
      else case kw ''token'' of
        None \<Rightarrow> Inl (KeyError ''token must be passed.'')
      | Some tok \<Rightarrow>
          (case kw ''position'' of
             None \<Rightarrow> Inl (KeyError ''position must be passed.'')
           | Some position \<Rightarrow>
               if tok = PyKind COMMA then
                 (if position = PyStr ''before''
                    then Violation_init t p WHITESPACE_BEFORE_COMMA kw
                  else if position = PyStr ''after''
                    then Violation_init t p WHITESPACE_AFTER_COMMA kw
                  else Inl ValueError)
               else if tok = PyKind BRACKET_LEFT
                 then Violation_init t p WHITESPACE_AFTER_BRACKET kw
               else if tok = PyKind BRACKET_RIGHT
                 then Violation_init t p WHITESPACE_BEFORE_BRACKET kw
               else if tok = PyKind OPERATOR then
                 (if position = PyStr ''before''
                    then Violation_init t p WHITESPACE_BEFORE_OPERATOR kw
                  else if position = PyStr ''after''
                    then Violation_init t p WHITESPACE_AFTER_OPERATOR kw
                  else Inl ValueError)
               else Inl ValueError))"

definition JoinTableViolation :: "syntax_tree \<Rightarrow> int \<Rightarrow> kwargs \<Rightarrow> error + violation" where
  "JoinTableViolation t p kw =
     (if repeated_argument kw [''self'', ''tree'', ''pos''] then Inl TypeError
      else Violation_init t p JOIN_TABLE kw)"

definition JoinContextViolation :: "syntax_tree \<Rightarrow> int \<Rightarrow> kwargs \<Rightarrow> error + violation" where
  "JoinContextViolation t p kw =
     (if repeated_argument kw [''self'', ''tree'', ''pos''] then Inl TypeError
      else Violation_init t p JOIN_CONTEXT kw)"

section \<open>The orchestrator\<close>

text \<open>
  The module \<open>base\<close> with the five checker classes is not among the sources: the
  \<open>check\<close> method of each is a parameter, a function of the tree and the configuration that
  returns a list of violations or raises.
\<close>

record ('t, 'c) checkers =
  IndentStepsChecker :: "'t \<Rightarrow> 'c \<Rightarrow> error + violation list"
  WhitespaceChecker :: "'t \<Rightarrow> 'c \<Rightarrow> error + violation list"
  KeywordStyleChecker :: "'t \<Rightarrow> 'c \<Rightarrow> error + violation list"
  CommaChecker :: "'t \<Rightarrow> 'c \<Rightarrow> error + violation list"
  JoinChecker :: "'t \<Rightarrow> 'c \<Rightarrow> error + violation list"

definition checker_list ::
  "('t, 'c) checkers \<Rightarrow> ('t \<Rightarrow> 'c \<Rightarrow> error + violation list) list" where
  "checker_list b =
     [IndentStepsChecker b, WhitespaceChecker b, KeywordStyleChecker b, CommaChecker b,
      JoinChecker b]"

text \<open>The first loop of \<open>check\<close>: \<open>violation_list.extend(checker.check(tree, config))\<close>.\<close>

fun run_checkers ::
  "('t \<Rightarrow> 'c \<Rightarrow> error + violation list) list \<Rightarrow> 't \<Rightarrow> 'c \<Rightarrow> violation list
     \<Rightarrow> error + violation list" where
  "run_checkers [] t cfg violation_list = Inr violation_list"
| "run_checkers (checker # rest) t cfg violation_list =
     (case checker t cfg of
        Inl e \<Rightarrow> Inl e
      | Inr vs \<Rightarrow> run_checkers rest t cfg (violation_list @ vs))"

text \<open>The second loop: \<open>print(vi.get_message())\<close>, the printed lines collected in order.\<close>

fun print_messages :: "violation list \<Rightarrow> string list \<Rightarrow> error + string list" where
  "print_messages [] out = Inr out"
| "print_messages (vi # rest) out =
     (case get_message vi of
        Inl e \<Rightarrow> Inl e
      | Inr m \<Rightarrow> print_messages rest (out @ [m]))"

text \<open>
  \<open>check\<close>: the result is the printed lines and the value the call returns. The body ends
  after the second loop, with no \<open>return\<close> statement (the rest of the body is a string
  literal), so the call returns Python's \<open>None\<close>, the second component \<open>None\<close> here; a
  returned list would be \<open>Some\<close> of it.
\<close>

definition check ::
  "('t, 'c) checkers \<Rightarrow> 't \<Rightarrow> 'c \<Rightarrow> error + (string list \<times> violation list option)" where
  "check b t cfg =
     (case run_checkers (checker_list b) t cfg [] of
        Inl e \<Rightarrow> Inl e
      | Inr violation_list \<Rightarrow>
          (case print_messages violation_list [] of
             Inl e \<Rightarrow> Inl e
           | Inr out \<Rightarrow> Inr (out, None)))"

section \<open>Example inputs\<close>

text \<open>The root object \<open>SyntaxTree(depth=0, line_num=0)\<close>, and a line of two spaces and a word.\<close>

definition root0 :: syntax_tree where
  "root0 =
     \<lparr>depth = 0, leaves = [], parent = None, node = \<lparr>line_num = 0, tokens = []\<rparr>,
      is_abstract = False\<rparr>"

definition line0 :: node where
  "line0 =
     \<lparr>line_num = 1,
      tokens = [\<lparr>kind = WHITESPACE, word = ''  ''\<rparr>, \<lparr>kind = KEYWORD, word = ''from''\<rparr>,
                \<lparr>kind = WHITESPACE, word = '' ''\<rparr>]\<rparr>"

text \<open>
  A small lossless tokenizer, for example inputs: each line of the text is cut into its
  leading spaces, a WHITESPACE token, and the rest, an IDENTIFIER token; an empty part gives
  no token.
\<close>

definition parse_words :: "string \<Rightarrow> token list list" where
  "parse_words sql =
     map (\<lambda>l. (if takeWhile (\<lambda>c. c = CHR '' '') l = [] then []
                else [\<lparr>kind = WHITESPACE, word = takeWhile (\<lambda>c. c = CHR '' '') l\<rparr>])
             @ (if dropWhile (\<lambda>c. c = CHR '' '') l = [] then []
                else [\<lparr>kind = IDENTIFIER, word = dropWhile (\<lambda>c. c = CHR '' '') l\<rparr>]))
       (split_nl sql)"

text \<open>Three lines, the second indented by two spaces.\<close>

definition sql0 :: string where
  "sql0 = ''select'' @ [CHR 0x0A] @ ''  a'' @ [CHR 0x0A] @ ''from t''"

text \<open>The stores that \<open>sqlptree\<close> builds from these lines, and from the one line \<open>select\<close>.\<close>

definition store0 :: store where
  "store0 =
     [\<lparr>depth = 0, leaves = [1, 3], parent = None, node = \<lparr>line_num = 0, tokens = []\<rparr>,
        is_abstract = False\<rparr>,
      \<lparr>depth = 1, leaves = [2], parent = Some 0,
        node = \<lparr>line_num = 1, tokens = [\<lparr>kind = IDENTIFIER, word = ''select''\<rparr>]\<rparr>,
        is_abstract = False\<rparr>,
      \<lparr>depth = 2, leaves = [], parent = Some 1,
        node = \<lparr>line_num = 2,
                tokens = [\<lparr>kind = WHITESPACE, word = ''  ''\<rparr>,
                          \<lparr>kind = IDENTIFIER, word = ''a''\<rparr>]\<rparr>,
        is_abstract = False\<rparr>,
      \<lparr>depth = 1, leaves = [], parent = Some 0,
        node = \<lparr>line_num = 3, tokens = [\<lparr>kind = IDENTIFIER, word = ''from t''\<rparr>]\<rparr>,
        is_abstract = False\<rparr>]"

definition store1 :: store where
  "store1 =
     [\<lparr>depth = 0, leaves = [1], parent = None, node = \<lparr>line_num = 0, tokens = []\<rparr>,
        is_abstract = False\<rparr>,
      \<lparr>depth = 1, leaves = [], parent = Some 0,
        node = \<lparr>line_num = 1, tokens = [\<lparr>kind = IDENTIFIER, word = ''select''\<rparr>]\<rparr>,
        is_abstract = False\<rparr>]"

text \<open>The store of the abstract tree of the three lines.\<close>

definition store2 :: store where
  "store2 =
     [\<lparr>depth = 0, leaves = [1, 2, 3], parent = None, node = \<lparr>line_num = 0, tokens = []\<rparr>,
        is_abstract = True\<rparr>,
      \<lparr>depth = 1, leaves = [], parent = Some 0,
        node = \<lparr>line_num = 1, tokens = [\<lparr>kind = IDENTIFIER, word = ''select''\<rparr>]\<rparr>,
        is_abstract = True\<rparr>,
      \<lparr>depth = 1, leaves = [], parent = Some 0,
        node = \<lparr>line_num = 2, tokens = [\<lparr>kind = IDENTIFIER, word = ''a''\<rparr>]\<rparr>,
        is_abstract = True\<rparr>,
      \<lparr>depth = 1, leaves = [], parent = Some 0,
        node = \<lparr>line_num = 3, tokens = [\<lparr>kind = IDENTIFIER, word = ''from t''\<rparr>]\<rparr>,
        is_abstract = True\<rparr>]"

text \<open>
  Stand-ins for the five checkers: the first reports one violation, for a line indented by
  2 spaces under \<open>indent-steps = 4\<close>, and the others report none.
\<close>

definition checkers0 :: "(syntax_tree, unit) checkers" where
  "checkers0 =
     \<lparr>IndentStepsChecker =
        (\<lambda>t cfg. case IndentStepsViolation t 1
                          (Map.empty(''expected'' \<mapsto> PyInt 4, ''actual'' \<mapsto> PyInt 2)) of
                    Inl e \<Rightarrow> Inl e
                  | Inr v \<Rightarrow> Inr [v]),
      WhitespaceChecker = (\<lambda>t cfg. Inr []),
      KeywordStyleChecker = (\<lambda>t cfg. Inr []),
      CommaChecker = (\<lambda>t cfg. Inr []),
      JoinChecker = (\<lambda>t cfg. Inr [])\<rparr>"





section \<open>Notions for the proofs about the tree\<close>

text \<open>
  The references that the traversal of \<open>_sqlftree\<close> visits, in its order, with the same
  bound on the depth of the recursion.
\<close>

fun reach :: "nat \<Rightarrow> store \<Rightarrow> nat list \<Rightarrow> nat list option" where
  "reach k s [] = Some []"
| "reach 0 s (leaf # ls) = None"
| "reach (Suc k) s (leaf # ls) =
     (case reach k s (leaves (s ! leaf)) of
        None \<Rightarrow> None
      | Some below \<Rightarrow>
          (case reach (Suc k) s ls of
             None \<Rightarrow> None
           | Some after \<Rightarrow> Some (leaf # below @ after)))"

text \<open>
  The rightmost path below an object: the object itself, then the last of its leaves, and so
  on. \<open>parent_vertex\<close> is always on the rightmost path below the root.
\<close>

inductive rpath :: "store \<Rightarrow> nat \<Rightarrow> nat \<Rightarrow> bool" for s :: store where
  rpath_here: "rpath s a a"
| rpath_down: "leaves (s ! a) \<noteq> [] \<Longrightarrow> rpath s (last (leaves (s ! a))) q \<Longrightarrow> rpath s a q"

text \<open>
  One iteration of the outer loop of \<open>sqlptree\<close>, once the inner loop has stopped at \<open>q\<close>:
  the indent computed for the line, the object created for it, and the store after
  \<open>add_leaf\<close>.
\<close>

definition line_indent :: "token list \<Rightarrow> int" where
  "line_indent toks =
     (case toks of [] \<Rightarrow> 0 | t # _ \<Rightarrow> if kind t = WHITESPACE then int (length (word t)) else 0)"

definition new_tree :: "store \<Rightarrow> nat \<Rightarrow> nat \<Rightarrow> token list \<Rightarrow> bool \<Rightarrow> syntax_tree" where
  "new_tree s q ln toks abstract =
     \<lparr>depth = depth (s ! q) + 1, leaves = [], parent = Some q,
      node = \<lparr>line_num = int ln + 1, tokens = toks\<rparr>, is_abstract = abstract\<rparr>"

definition attach_at :: "store \<Rightarrow> nat \<Rightarrow> syntax_tree \<Rightarrow> store" where
  "attach_at s q w = s[q := (s ! q)\<lparr>leaves := leaves (s ! q) @ [length s]\<rparr>] @ [w]"

text \<open>The token lists that \<open>sqlptree\<close> makes nodes of.\<close>

definition retained :: "bool \<Rightarrow> token list list \<Rightarrow> token list list" where
  "retained abstract token_list =
     (if abstract then filter (\<lambda>ts. ts \<noteq> []) (map ignore_token token_list)
      else token_list)"

text \<open>
  What holds of the store at every iteration: the root is the only object at depth 0 and
  every other object has a parent created before it; the leaves of an object have it as
  parent; below an object other than the root, indents are strictly greater; the traversal
  from the root visits the objects in the order of their creation.
\<close>

definition shape_inv :: "store \<Rightarrow> bool" where
  "shape_inv s \<longleftrightarrow>
     s \<noteq> [] \<and> parent (s ! 0) = None \<and> depth (s ! 0) = 0 \<and>
     (\<forall>a. 0 < a \<and> a < length s \<longrightarrow> 0 < depth (s ! a) \<and> (\<exists>p<a. parent (s ! a) = Some p))"

definition leaves_inv :: "store \<Rightarrow> bool" where
  "leaves_inv s \<longleftrightarrow>
     (\<forall>a<length s. \<forall>l\<in>set (leaves (s ! a)). l < length s \<and> parent (s ! l) = Some a)"

definition indent_inv :: "store \<Rightarrow> bool" where
  "indent_inv s \<longleftrightarrow>
     (\<forall>a p. a < length s \<and> parent (s ! a) = Some p \<and> p \<noteq> 0 \<longrightarrow>
        tree_indent (s ! p) < tree_indent (s ! a))"

definition tree_inv :: "store \<Rightarrow> nat \<Rightarrow> bool" where
  "tree_inv s pv \<longleftrightarrow>
     shape_inv s \<and> leaves_inv s \<and> indent_inv s \<and> pv < length s \<and> rpath s 0 pv \<and>
     reach (length s) s (leaves (s ! 0)) = Some [1..<length s]"

text \<open>What holds of the store of an abstract tree at every iteration.\<close>

definition flat_inv :: "store \<Rightarrow> bool" where
  "flat_inv s \<longleftrightarrow>
     s \<noteq> [] \<and> depth (s ! 0) = 0 \<and> leaves (s ! 0) = [1..<length s] \<and>
     (\<forall>a. 0 < a \<and> a < length s \<longrightarrow>
        parent (s ! a) = Some 0 \<and> depth (s ! a) = 1 \<and> leaves (s ! a) = [] \<and>
        (\<forall>t\<in>set (tokens (node (s ! a))). kind t \<noteq> WHITESPACE))"

section \<open>Node: indent, columns and trims\<close>

text \<open>
  Claim C7. The indent of a node is the length of the text of its first token when that
  token exists and is of kind WHITESPACE, and 0 in every other case: for a blank line and
  for a line that starts with a token of any other kind. The indent of a tree object is
  that of its node.
\<close>

theorem node_indent_rule:
  "node_indent n =
     (if tokens n \<noteq> [] \<and> kind (hd (tokens n)) = WHITESPACE
      then int (length (word (hd (tokens n)))) else 0)
   \<and> tree_indent t = node_indent (node t)"
  by (cases "tokens n") (simp_all add: node_indent_def tree_indent_def token_len_def Let_def)

theorem node_indent_rule_witness:
  "node_indent line0 = 2 \<and> node_indent \<lparr>line_num = 3, tokens = []\<rparr> = 0
   \<and> node_indent \<lparr>line_num = 4, tokens = [\<lparr>kind = COMMENT, word = ''-- x''\<rparr>]\<rparr> = 0"
  using node_indent_rule [of line0 root0]
    node_indent_rule [of "\<lparr>line_num = 3, tokens = []\<rparr>" root0]
    node_indent_rule [of "\<lparr>line_num = 4, tokens = [\<lparr>kind = COMMENT, word = ''-- x''\<rparr>]\<rparr>" root0]
  by (simp add: line0_def)

lemma ltrip_cut_takeWhile:
  "ltrip_cut K ts c = c + int (length (takeWhile (\<lambda>t. kind t \<in> set K) ts))"
  by (induction ts arbitrary: c) auto

lemma rtrip_cut_takeWhile:
  "rtrip_cut K ts c = c - int (length (takeWhile (\<lambda>t. kind t \<in> set K) ts))"
  by (induction ts arbitrary: c) auto

lemma slice_from_ltrip_cut:
  "slice_from ts (ltrip_cut K ts (- 1) + 1) = dropWhile (\<lambda>t. kind t \<in> set K) ts"
  by (simp add: slice_from_def ltrip_cut_takeWhile dropWhile_eq_drop)

lemma take_rev_dropWhile:
  "take (length xs - length (takeWhile P (rev xs))) xs = rev (dropWhile P (rev xs))"
proof -
  have "rev (dropWhile P (rev xs)) = rev (drop (length (takeWhile P (rev xs))) (rev xs))"
    by (simp add: dropWhile_eq_drop)
  also have "\<dots> = take (length xs - length (takeWhile P (rev xs))) xs"
    by (simp add: rev_drop)
  finally show ?thesis by simp
qed

lemma slice_to_rtrip_cut:
  "slice_to ts (rtrip_cut K (rev ts) (int (length ts))) =
     rev (dropWhile (\<lambda>t. kind t \<in> set K) (rev ts))"
proof -
  let ?m = "length (takeWhile (\<lambda>t. kind t \<in> set K) (rev ts))"
  have le: "?m \<le> length ts"
    using length_takeWhile_le [of "\<lambda>t. kind t \<in> set K" "rev ts"] by simp
  then have "nat (int (length ts) - int ?m) = length ts - ?m"
    by linarith
  with le show ?thesis
    by (simp add: slice_to_def rtrip_cut_takeWhile take_rev_dropWhile)
qed

text \<open>
  Claim C8. On a node \<open>n\<close> (whose line number, set by the constructor, is not negative) and
  kinds \<open>K\<close>: \<open>ltrip_kind\<close> returns a new node with the line number of \<open>n\<close> and the tokens
  of \<open>n\<close> without the longest leading run of tokens whose kind is in \<open>K\<close>; \<open>rtrip_kind\<close> does
  the same at the tail; \<open>trip_kind\<close> removes both runs; and each call leaves \<open>n\<close> as it was.
\<close>

theorem trim_by_kind:
  assumes "0 \<le> line_num n"
  shows "ltrip_kind n K =
           (n, Inr \<lparr>line_num = line_num n,
                    tokens = dropWhile (\<lambda>t. kind t \<in> set K) (tokens n)\<rparr>)
       \<and> rtrip_kind n K =
           (n, Inr \<lparr>line_num = line_num n,
                    tokens = rev (dropWhile (\<lambda>t. kind t \<in> set K) (rev (tokens n)))\<rparr>)
       \<and> trip_kind n K =
           (n, Inr \<lparr>line_num = line_num n,
                    tokens = rev (dropWhile (\<lambda>t. kind t \<in> set K)
                               (rev (dropWhile (\<lambda>t. kind t \<in> set K) (tokens n))))\<rparr>)"
  using assms
  by (simp add: ltrip_kind_def rtrip_kind_def trip_kind_def Node_init_def
      slice_from_ltrip_cut slice_to_rtrip_cut)

theorem trim_by_kind_witness:
  "0 \<le> line_num line0
   \<and> ltrip_kind line0 [WHITESPACE] =
       (line0, Inr \<lparr>line_num = 1,
                    tokens = [\<lparr>kind = KEYWORD, word = ''from''\<rparr>,
                              \<lparr>kind = WHITESPACE, word = '' ''\<rparr>]\<rparr>)
   \<and> rtrip_kind line0 [WHITESPACE] =
       (line0, Inr \<lparr>line_num = 1,
                    tokens = [\<lparr>kind = WHITESPACE, word = ''  ''\<rparr>,
                              \<lparr>kind = KEYWORD, word = ''from''\<rparr>]\<rparr>)
   \<and> trip_kind line0 [WHITESPACE] =
       (line0, Inr \<lparr>line_num = 1, tokens = [\<lparr>kind = KEYWORD, word = ''from''\<rparr>]\<rparr>)"
proof -
  have h: "0 \<le> line_num line0" by (simp add: line0_def)
  show ?thesis using h trim_by_kind [OF h, of "[WHITESPACE]"] by (simp add: line0_def)
qed

text \<open>
  Claim C9. For an index \<open>i\<close> from 0 to the number of tokens of the line, \<open>get_position\<close>
  returns 1 plus the sum of the lengths of the \<open>i\<close> tokens before position \<open>i\<close>, the 1-based
  column of the token at \<open>i\<close>; \<open>SyntaxTree.get_position\<close> returns the same for its node.
\<close>

theorem get_position_column:
  assumes "0 \<le> i" and "i \<le> int (length (tokens (node t)))"
  shows "get_position (node t) i =
           1 + int (sum_list (map (\<lambda>tk. length (word tk)) (take (nat i) (tokens (node t)))))
       \<and> tree_get_position t i = get_position (node t) i"
  using assms
  by (simp add: get_position_def tree_get_position_def slice_to_def Let_def max_def
      token_len_def [abs_def])

theorem get_position_column_witness:
  "(0::int) \<le> 2 \<and> 2 \<le> int (length (tokens (node (root0\<lparr>node := line0\<rparr>))))
   \<and> get_position line0 2 = 7 \<and> tree_get_position (root0\<lparr>node := line0\<rparr>) 2 = 7"
proof -
  have h1: "(0::int) \<le> 2" by simp
  have h2: "2 \<le> int (length (tokens (node (root0\<lparr>node := line0\<rparr>))))"
    by (simp add: line0_def)
  show ?thesis using h2 get_position_column [OF h1 h2] by (simp add: line0_def)
qed

section \<open>Construction-time checks\<close>

lemma Node_init_negative: "ln < 0 \<Longrightarrow> Node_init ln toks = Inl ValueError"
  by (simp add: Node_init_def)

lemma SyntaxTree_init_negative_line: "ln < 0 \<Longrightarrow> SyntaxTree_init d ln toks par a = Inl ValueError"
  by (simp add: SyntaxTree_init_def Node_init_def)

text \<open>
  Claim C4. A \<open>Node\<close> with a negative line number is refused (the lemmas above), but
  \<open>SyntaxTree(depth=-1, line_num=0)\<close> is constructed, with depth \<open>-1\<close>: the constructor
  writes \<open>_depth\<close> without going through the setter that checks it.
\<close>

theorem SyntaxTree_init_negative_depth:
  "SyntaxTree_init (- 1) 0 None None False =
     Inr \<lparr>depth = - 1, leaves = [], parent = None, node = \<lparr>line_num = 0, tokens = []\<rparr>,
          is_abstract = False\<rparr>
   \<and> set_depth root0 (- 1) = Inl ValueError"
  by (simp add: SyntaxTree_init_def Node_init_def set_depth_def)

section \<open>The orchestrator\<close>

text \<open>
  Claim C2. \<open>check\<close> collects the violations of the five checkers in their declared order
  and prints their messages, but it returns no list: whatever the checkers return, the value
  of the call is never a list, and on the example, where one violation is found and its
  message printed, the value of the call is \<open>None\<close>.
\<close>

theorem check_returns_no_list:
  "check b t cfg \<noteq> Inr (out, Some vs)
   \<and> check checkers0 (root0\<lparr>node := line0\<rparr>) () =
       Inr ([''(L1, 1): indent steps must be 4 multiples, but 2 spaces''], None)"
proof -
  have "check b t cfg \<noteq> Inr (out, Some vs)"
    by (auto simp: check_def split: sum.splits)
  moreover have "check checkers0 (root0\<lparr>node := line0\<rparr>) () =
       Inr ([''(L1, 1): indent steps must be 4 multiples, but 2 spaces''], None)"
    by (simp add: check_def checker_list_def checkers0_def IndentStepsViolation_def
        Violation_init_def repeated_argument_def get_message_def format_def template_def
        line0_def str_int_def)
  ultimately show ?thesis by simp
qed

section \<open>Violations: what the constructors check\<close>


lemma IndentStepsViolation_cases:
  "IndentStepsViolation t p kw =
     (if repeated_argument kw [''self'', ''tree'', ''pos'', ''code''] then Inl TypeError
      else Inr \<lparr>tree = t, pos = p, code = INDENT_STEPS, params = kw\<rparr>)"
  by (auto simp: IndentStepsViolation_def Violation_init_def repeated_argument_def)

lemma KeywordStyleViolation_no_style:
  "\<not> repeated_argument kw [''self'', ''tree'', ''pos''] \<Longrightarrow> kw ''style'' = None \<Longrightarrow>
   KeywordStyleViolation t p kw = Inl (KeyError ''style must be passed.'')"
  by (simp add: KeywordStyleViolation_def)

lemma KeywordStyleViolation_lower:
  "\<not> repeated_argument kw [''self'', ''tree'', ''pos'', ''code''] \<Longrightarrow>
   kw ''style'' = Some (PyStr ''lower'') \<Longrightarrow>
   KeywordStyleViolation t p kw = Inr \<lparr>tree = t, pos = p, code = KEYWORD_LOWER, params = kw\<rparr>"
  by (auto simp: KeywordStyleViolation_def Violation_init_def repeated_argument_def)

lemma WhitespaceViolation_no_token:
  "\<not> repeated_argument kw [''self'', ''tree'', ''pos''] \<Longrightarrow> kw ''token'' = None \<Longrightarrow>
   WhitespaceViolation t p kw = Inl (KeyError ''token must be passed.'')"
  by (simp add: WhitespaceViolation_def)

lemma WhitespaceViolation_no_position:
  "\<not> repeated_argument kw [''self'', ''tree'', ''pos''] \<Longrightarrow> kw ''token'' \<noteq> None \<Longrightarrow>
   kw ''position'' = None \<Longrightarrow>
   WhitespaceViolation t p kw = Inl (KeyError ''position must be passed.'')"
  by (auto simp: WhitespaceViolation_def)

lemma get_message_line:
  "kw ''line'' \<noteq> None \<Longrightarrow>
   get_message \<lparr>tree = t, pos = p, code = c, params = kw\<rparr> = Inl TypeError"
  by (simp add: get_message_def)

lemma get_message_no_expected:
  "kw ''line'' = None \<Longrightarrow> kw ''pos'' = None \<Longrightarrow> kw ''expected'' = None \<Longrightarrow>
   get_message \<lparr>tree = t, pos = p, code = INDENT_STEPS, params = kw\<rparr>
     = Inl (KeyError ''expected'')"
  by (simp add: get_message_def format_def template_def)

lemma get_message_no_actual:
  "kw ''line'' = None \<Longrightarrow> kw ''pos'' = None \<Longrightarrow> kw ''expected'' \<noteq> None \<Longrightarrow>
   kw ''actual'' = None \<Longrightarrow>
   get_message \<lparr>tree = t, pos = p, code = INDENT_STEPS, params = kw\<rparr>
     = Inl (KeyError ''actual'')"
  by (auto simp: get_message_def format_def template_def)

lemma get_message_indent_steps:
  "kw ''line'' = None \<Longrightarrow> kw ''pos'' = None \<Longrightarrow> kw ''expected'' = Some e \<Longrightarrow>
   kw ''actual'' = Some a \<Longrightarrow>
   get_message \<lparr>tree = t, pos = p, code = INDENT_STEPS, params = kw\<rparr> =
     Inr (''(L'' @ str_int (line_num (node t)) @ '', '' @ str_int p
          @ ''): indent steps must be '' @ py_str e @ '' multiples, but '' @ py_str a
          @ '' spaces'')"
  by (simp add: get_message_def format_def template_def)

lemma get_message_keyword_no_actual:
  "kw ''line'' = None \<Longrightarrow> kw ''pos'' = None \<Longrightarrow> kw ''actual'' = None \<Longrightarrow>
   get_message \<lparr>tree = t, pos = p, code = KEYWORD_LOWER, params = kw\<rparr>
     = Inl (KeyError ''actual'')"
  by (simp add: get_message_def format_def template_def)

text \<open>
  Claim C5, as stated, fails: \<open>IndentStepsViolation\<close> without \<open>expected\<close> and \<open>actual\<close> is
  constructed, and \<open>get_message\<close> on it raises \<open>KeyError\<close>.
\<close>

theorem indent_steps_missing_parameter_counterexample:
  "IndentStepsViolation root0 1 Map.empty
     = Inr \<lparr>tree = root0, pos = 1, code = INDENT_STEPS, params = Map.empty\<rparr>
   \<and> get_message \<lparr>tree = root0, pos = 1, code = INDENT_STEPS, params = Map.empty\<rparr>
     = Inl (KeyError ''expected'')"
  by (simp add: IndentStepsViolation_cases repeated_argument_def get_message_no_expected)

text \<open>
  Claim C5, amended. When no keyword parameter is named \<open>self\<close>, \<open>tree\<close> or \<open>pos\<close>,
  \<open>KeywordStyleViolation\<close> raises \<open>KeyError\<close> at construction without \<open>style\<close>, and
  \<open>WhitespaceViolation\<close> without \<open>token\<close> or without \<open>position\<close>: the parameters they select
  the code by. The placeholders of the template of \<open>IndentStepsViolation\<close> are not checked
  at construction: \<open>IndentStepsViolation\<close> raises \<open>TypeError\<close> when a keyword parameter is named
  \<open>self\<close>, \<open>tree\<close>, \<open>pos\<close> or \<open>code\<close>, and constructs the violation from any other keyword
  parameters. On that violation \<open>get_message\<close> raises \<open>TypeError\<close> when a parameter is named
  \<open>line\<close>; otherwise it raises \<open>KeyError\<close> for \<open>expected\<close> when \<open>expected\<close> is missing, and for
  \<open>actual\<close> when only \<open>actual\<close> is missing, and when both are given it returns the line,
  the position and the template with the two values in place of the placeholders.
  \<open>KeywordStyleViolation\<close> with the style \<open>lower\<close> and no \<open>actual\<close> (no parameter being named
  \<open>self\<close>, \<open>tree\<close>, \<open>pos\<close>, \<open>code\<close> or \<open>line\<close>) is constructed too, and \<open>get_message\<close> on it
  raises \<open>KeyError\<close> for \<open>actual\<close>.
\<close>

theorem violation_parameters_checked:
  "(\<not> repeated_argument kw [''self'', ''tree'', ''pos''] \<longrightarrow> kw ''style'' = None \<longrightarrow>
      KeywordStyleViolation t p kw = Inl (KeyError ''style must be passed.''))
   \<and> (\<not> repeated_argument kw [''self'', ''tree'', ''pos''] \<longrightarrow> kw ''token'' = None \<longrightarrow>
      WhitespaceViolation t p kw = Inl (KeyError ''token must be passed.''))
   \<and> (\<not> repeated_argument kw [''self'', ''tree'', ''pos''] \<longrightarrow> kw ''token'' \<noteq> None \<longrightarrow>
      kw ''position'' = None \<longrightarrow>
      WhitespaceViolation t p kw = Inl (KeyError ''position must be passed.''))
   \<and> (repeated_argument kw [''self'', ''tree'', ''pos'', ''code''] \<longrightarrow>
      IndentStepsViolation t p kw = Inl TypeError)
   \<and> (\<not> repeated_argument kw [''self'', ''tree'', ''pos'', ''code''] \<longrightarrow>
      IndentStepsViolation t p kw
        = Inr \<lparr>tree = t, pos = p, code = INDENT_STEPS, params = kw\<rparr>)
   \<and> (kw ''line'' \<noteq> None \<longrightarrow>
      get_message \<lparr>tree = t, pos = p, code = INDENT_STEPS, params = kw\<rparr> = Inl TypeError)
   \<and> (kw ''line'' = None \<longrightarrow> kw ''pos'' = None \<longrightarrow> kw ''expected'' = None \<longrightarrow>
      get_message \<lparr>tree = t, pos = p, code = INDENT_STEPS, params = kw\<rparr>
        = Inl (KeyError ''expected''))
   \<and> (kw ''line'' = None \<longrightarrow> kw ''pos'' = None \<longrightarrow> kw ''expected'' \<noteq> None \<longrightarrow>
      kw ''actual'' = None \<longrightarrow>
      get_message \<lparr>tree = t, pos = p, code = INDENT_STEPS, params = kw\<rparr>
        = Inl (KeyError ''actual''))
   \<and> (kw ''line'' = None \<longrightarrow> kw ''pos'' = None \<longrightarrow> kw ''expected'' = Some e \<longrightarrow>
      kw ''actual'' = Some a \<longrightarrow>
      get_message \<lparr>tree = t, pos = p, code = INDENT_STEPS, params = kw\<rparr>
        = Inr (''(L'' @ str_int (line_num (node t)) @ '', '' @ str_int p
               @ ''): indent steps must be '' @ py_str e @ '' multiples, but '' @ py_str a
               @ '' spaces''))
   \<and> (\<not> repeated_argument kw [''self'', ''tree'', ''pos'', ''code''] \<longrightarrow>
      kw ''style'' = Some (PyStr ''lower'') \<longrightarrow> kw ''line'' = None \<longrightarrow> kw ''actual'' = None \<longrightarrow>
      KeywordStyleViolation t p kw
        = Inr \<lparr>tree = t, pos = p, code = KEYWORD_LOWER, params = kw\<rparr>
      \<and> get_message \<lparr>tree = t, pos = p, code = KEYWORD_LOWER, params = kw\<rparr>
        = Inl (KeyError ''actual''))"
proof -
  have kl: "\<not> repeated_argument kw [''self'', ''tree'', ''pos'', ''code''] \<Longrightarrow>
        kw ''style'' = Some (PyStr ''lower'') \<Longrightarrow> kw ''line'' = None \<Longrightarrow> kw ''actual'' = None \<Longrightarrow>
        KeywordStyleViolation t p kw
          = Inr \<lparr>tree = t, pos = p, code = KEYWORD_LOWER, params = kw\<rparr>
        \<and> get_message \<lparr>tree = t, pos = p, code = KEYWORD_LOWER, params = kw\<rparr>
          = Inl (KeyError ''actual'')"
    using KeywordStyleViolation_lower [of kw t p] get_message_keyword_no_actual [of kw t p]
    by (simp add: repeated_argument_def)
  show ?thesis
    using KeywordStyleViolation_no_style [of kw t p] WhitespaceViolation_no_token [of kw t p]
      WhitespaceViolation_no_position [of kw t p] IndentStepsViolation_cases [of t p kw]
      get_message_line [of kw t p INDENT_STEPS] get_message_no_expected [of kw t p]
      get_message_no_actual [of kw t p] get_message_indent_steps [of kw e a t p] kl
    by (intro conjI impI) (assumption | simp)+
qed

theorem violation_parameters_checked_witness:
  "KeywordStyleViolation root0 1 Map.empty = Inl (KeyError ''style must be passed.'')
   \<and> WhitespaceViolation root0 1 Map.empty = Inl (KeyError ''token must be passed.'')
   \<and> WhitespaceViolation root0 1 (Map.empty(''token'' \<mapsto> PyKind COMMA))
       = Inl (KeyError ''position must be passed.'')
   \<and> IndentStepsViolation root0 1 (Map.empty(''code'' \<mapsto> PyStr ''E101'')) = Inl TypeError
   \<and> IndentStepsViolation root0 1 (Map.empty(''expected'' \<mapsto> PyInt 4))
       = Inr \<lparr>tree = root0, pos = 1, code = INDENT_STEPS,
              params = Map.empty(''expected'' \<mapsto> PyInt 4)\<rparr>
   \<and> get_message \<lparr>tree = root0, pos = 1, code = INDENT_STEPS,
                   params = Map.empty(''line'' \<mapsto> PyInt 7)\<rparr> = Inl TypeError
   \<and> get_message \<lparr>tree = root0, pos = 1, code = INDENT_STEPS, params = Map.empty\<rparr>
       = Inl (KeyError ''expected'')
   \<and> get_message \<lparr>tree = root0, pos = 1, code = INDENT_STEPS,
                   params = Map.empty(''expected'' \<mapsto> PyInt 4)\<rparr>
       = Inl (KeyError ''actual'')
   \<and> get_message \<lparr>tree = root0, pos = 1, code = INDENT_STEPS,
                   params = Map.empty(''expected'' \<mapsto> PyInt 4, ''actual'' \<mapsto> PyInt 6)\<rparr>
       = Inr ''(L0, 1): indent steps must be 4 multiples, but 6 spaces''
   \<and> KeywordStyleViolation root0 1 (Map.empty(''style'' \<mapsto> PyStr ''lower''))
       = Inr \<lparr>tree = root0, pos = 1, code = KEYWORD_LOWER,
              params = Map.empty(''style'' \<mapsto> PyStr ''lower'')\<rparr>
   \<and> get_message \<lparr>tree = root0, pos = 1, code = KEYWORD_LOWER,
                   params = Map.empty(''style'' \<mapsto> PyStr ''lower'')\<rparr>
       = Inl (KeyError ''actual'')"
  using violation_parameters_checked [of Map.empty root0 1 "PyInt 4" "PyInt 6"]
    violation_parameters_checked
      [of "Map.empty(''token'' \<mapsto> PyKind COMMA)" root0 1 "PyInt 4" "PyInt 6"]
    violation_parameters_checked
      [of "Map.empty(''code'' \<mapsto> PyStr ''E101'')" root0 1 "PyInt 4" "PyInt 6"]
    violation_parameters_checked
      [of "Map.empty(''line'' \<mapsto> PyInt 7)" root0 1 "PyInt 4" "PyInt 6"]
    violation_parameters_checked
      [of "Map.empty(''expected'' \<mapsto> PyInt 4)" root0 1 "PyInt 4" "PyInt 6"]
    violation_parameters_checked
      [of "Map.empty(''expected'' \<mapsto> PyInt 4, ''actual'' \<mapsto> PyInt 6)" root0 1
        "PyInt 4" "PyInt 6"]
    violation_parameters_checked
      [of "Map.empty(''style'' \<mapsto> PyStr ''lower'')" root0 1 "PyInt 4" "PyInt 6"]
  by (simp add: repeated_argument_def root0_def str_int_def)

section \<open>Violations: the code selected\<close>




section \<open>The store after one more line\<close>

lemma add_leaf_attach: "q < length s \<Longrightarrow> add_leaf (s @ [w]) q (length s) = attach_at s q w"
  by (simp add: add_leaf_def attach_at_def list_update_append1 nth_append)

lemma attach_length [simp]: "length (attach_at s q w) = Suc (length s)"
  by (simp add: attach_at_def)

lemma attach_nth_other: "a < length s \<Longrightarrow> a \<noteq> q \<Longrightarrow> attach_at s q w ! a = s ! a"
  by (simp add: attach_at_def nth_append)

lemma attach_nth_q: "q < length s \<Longrightarrow> attach_at s q w ! q = (s ! q)\<lparr>leaves := leaves (s ! q) @ [length s]\<rparr>"
  by (simp add: attach_at_def nth_append)

lemma attach_nth_new: "attach_at s q w ! length s = w"
  by (simp add: attach_at_def nth_append)

lemma attach_fields:
  assumes "a < length s"
  shows "depth (attach_at s q w ! a) = depth (s ! a)"
    and "parent (attach_at s q w ! a) = parent (s ! a)"
    and "node (attach_at s q w ! a) = node (s ! a)"
    and "leaves (attach_at s q w ! a) =
           (if a = q then leaves (s ! a) @ [length s] else leaves (s ! a))"
  using assms by (cases "a = q"; simp add: attach_nth_q attach_nth_other)+

lemma tree_indent_attach: "a < length s \<Longrightarrow> tree_indent (attach_at s q w ! a) = tree_indent (s ! a)"
  by (simp add: tree_indent_def attach_fields)

lemma tree_indent_new: "tree_indent (new_tree s q ln toks abstract) = line_indent toks"
  by (cases toks) (simp_all add: tree_indent_def node_indent_def new_tree_def line_indent_def token_len_def)

lemma node_indent_no_ws: "\<forall>t\<in>set (tokens n). kind t \<noteq> WHITESPACE \<Longrightarrow> node_indent n = 0"
  by (cases "tokens n") (simp_all add: node_indent_def Let_def)

lemma line_indent_no_ws: "\<forall>t\<in>set toks. kind t \<noteq> WHITESPACE \<Longrightarrow> line_indent toks = 0"
  by (cases toks) (simp_all add: line_indent_def)

section \<open>The traversal of the tree\<close>


lemma reach_append:
  "reach k s (xs @ ys) =
     (case reach k s xs of None \<Rightarrow> None
      | Some a \<Rightarrow> (case reach k s ys of None \<Rightarrow> None | Some b \<Rightarrow> Some (a @ b)))"
proof (induction xs)
  case Nil
  show ?case by (simp split: option.splits)
next
  case (Cons x xs)
  show ?case
  proof (cases k)
    case 0
    then show ?thesis by simp
  next
    case (Suc k')
    with Cons show ?thesis by (simp split: option.splits)
  qed
qed

lemma reach_mono: "reach k s ls = Some xs \<Longrightarrow> reach (Suc k) s ls = Some xs"
  by (induction k s ls arbitrary: xs rule: reach.induct) (auto split: option.splits)


lemma reach_frame:
  "reach k s ls = Some xs \<Longrightarrow> \<forall>x\<in>set xs. x < length s \<and> x \<noteq> q \<Longrightarrow>
   reach k (attach_at s q w) ls = Some xs"
proof (induction k s ls arbitrary: xs rule: reach.induct)
  case (1 k s)
  then show ?case by simp
next
  case (2 s leaf ls)
  then show ?case by simp
next
  case (3 k s leaf ls)
  from "3.prems"(1) obtain below after where
    b: "reach k s (leaves (s ! leaf)) = Some below" and
    a: "reach (Suc k) s ls = Some after" and
    xs: "xs = leaf # below @ after"
    by (auto split: option.splits)
  from "3.prems"(2) xs have leaf: "leaf < length s" "leaf \<noteq> q" by auto
  have b': "reach k (attach_at s q w) (leaves (s ! leaf)) = Some below"
    using "3.IH"(1) [OF b] "3.prems"(2) xs by auto
  have a': "reach (Suc k) (attach_at s q w) ls = Some after"
    using "3.IH"(2) [OF b a] "3.prems"(2) xs by auto
  show ?case using b' a' xs leaf by (simp add: attach_nth_other)
qed

lemma reach_rpath:
  "rpath s a q \<Longrightarrow> reach k s (leaves (s ! a)) = Some xs \<Longrightarrow> q = a \<or> q \<in> set xs"
proof (induction arbitrary: k xs rule: rpath.induct)
  case (rpath_here a)
  then show ?case by simp
next
  case (rpath_down a q)
  let ?ls = "leaves (s ! a)"
  have ls: "?ls = butlast ?ls @ [last ?ls]" using rpath_down.hyps(1) by simp
  from rpath_down.prems have "reach k s (butlast ?ls @ [last ?ls]) = Some xs" using ls by simp
  then obtain ys zs where
    zs: "reach k s [last ?ls] = Some zs" and xs: "xs = ys @ zs"
    by (auto simp: reach_append split: option.splits)
  from zs obtain k' b where k: "k = Suc k'" and b: "reach k' s (leaves (s ! last ?ls)) = Some b"
    and zs': "zs = last ?ls # b"
    by (cases k) (auto split: option.splits)
  from rpath_down.IH [OF b] have "q = last ?ls \<or> q \<in> set b" .
  then show ?case using xs zs' by auto
qed

lemma reach_attach:
  assumes "rpath s a q"
  shows "reach k s (leaves (s ! a)) = Some xs \<Longrightarrow> distinct (a # xs) \<Longrightarrow>
         \<forall>x\<in>set (a # xs). x < length s \<Longrightarrow> leaves w = [] \<Longrightarrow>
         reach (Suc k) (attach_at s q w) (leaves (attach_at s q w ! a)) = Some (xs @ [length s])"
  using assms
proof (induction arbitrary: k xs rule: rpath.induct)
  case (rpath_here a)
  let ?s' = "attach_at s a w"
  have a: "a < length s" "a \<notin> set xs" using rpath_here.prems by auto
  have old: "reach (Suc k) ?s' (leaves (s ! a)) = Some xs"
    using reach_frame [OF reach_mono [OF rpath_here.prems(1)], of a w] rpath_here.prems a by auto
  have new: "reach (Suc k) ?s' [length s] = Some [length s]"
    using rpath_here.prems(4) by (simp add: attach_nth_new)
  show ?case using a old new by (simp add: attach_nth_q reach_append)
next
  case (rpath_down a q)
  let ?ls = "leaves (s ! a)"
  let ?l = "last ?ls"
  let ?s' = "attach_at s q w"
  have ls: "?ls = butlast ?ls @ [?l]" using rpath_down.hyps(1) by simp
  from rpath_down.prems(1) have "reach k s (butlast ?ls @ [?l]) = Some xs" using ls by simp
  then obtain ys zs where ys: "reach k s (butlast ?ls) = Some ys" and
    zs: "reach k s [?l] = Some zs" and xs: "xs = ys @ zs"
    by (auto simp: reach_append split: option.splits)
  from zs obtain k' b where k: "k = Suc k'" and b: "reach k' s (leaves (s ! ?l)) = Some b"
    and zs': "zs = ?l # b"
    by (cases k) (auto split: option.splits)
  have q_in: "q \<in> set zs" using reach_rpath [OF rpath_down.hyps(2) b] zs' by auto
  have a: "a < length s" "a \<noteq> q" using rpath_down.prems xs q_in by auto
  have q_ys: "q \<notin> set ys" using rpath_down.prems(2) xs q_in by auto
  have ys': "reach (Suc k) ?s' (butlast ?ls) = Some ys"
    using reach_frame [OF reach_mono [OF ys], of q w] rpath_down.prems(3) xs q_ys by auto
  have "reach (Suc k') ?s' (leaves (?s' ! ?l)) = Some (b @ [length s])"
    using rpath_down.IH [OF b] rpath_down.prems xs zs' by auto
  then have zs'': "reach (Suc k) ?s' [?l] = Some (?l # b @ [length s])"
    using k by simp
  have "reach (Suc k) ?s' (butlast ?ls @ [?l]) = Some (ys @ ?l # b @ [length s])"
    using ys' zs'' by (simp only: reach_append option.case)
  then show ?case using a ls xs zs' by (simp add: attach_nth_other)
qed

lemma reach_attach_root:
  assumes "reach (length s) s (leaves (s ! 0)) = Some [1..<length s]" and "rpath s 0 q"
    and "s \<noteq> []"
  shows "reach (length (attach_at s q (new_tree s q ln toks abstract)))
           (attach_at s q (new_tree s q ln toks abstract))
           (leaves (attach_at s q (new_tree s q ln toks abstract) ! 0))
         = Some [1..<length (attach_at s q (new_tree s q ln toks abstract))]"
proof -
  have "[1..<length s] @ [length s] = [1..<Suc (length s)]" using assms(3)
    by (cases s) simp_all
  with reach_attach [OF assms(2) assms(1), of "new_tree s q ln toks abstract"] assms(3)
  show ?thesis
    by (simp add: new_tree_def)
qed

section \<open>The rightmost path and the inner loop\<close>

lemma rpath_trans: "rpath s a b \<Longrightarrow> rpath s b c \<Longrightarrow> rpath s a c"
  by (induction rule: rpath.induct) (auto intro: rpath.intros)

lemma rpath_parent:
  assumes "leaves_inv s"
  shows "rpath s a q \<Longrightarrow> a < length s \<Longrightarrow> q \<noteq> a \<Longrightarrow> \<exists>p. parent (s ! q) = Some p \<and> rpath s a p"
proof (induction rule: rpath.induct)
  case (rpath_here a)
  then show ?case by simp
next
  case (rpath_down a q)
  let ?l = "last (leaves (s ! a))"
  have "?l \<in> set (leaves (s ! a))" using rpath_down.hyps(1) by simp
  with assms rpath_down.prems(1) have l: "?l < length s" "parent (s ! ?l) = Some a"
    by (auto simp: leaves_inv_def)
  show ?case
  proof (cases "q = ?l")
    case True
    with l show ?thesis by (auto intro: rpath.intros)
  next
    case False
    with rpath_down.IH l obtain p where "parent (s ! q) = Some p" "rpath s ?l p" by auto
    with rpath_down.hyps(1) show ?thesis by (auto intro: rpath.intros)
  qed
qed

lemma rpath_attach:
  assumes "leaves_inv s"
  shows "rpath s a q \<Longrightarrow> a < length s \<Longrightarrow> rpath (attach_at s q w) a q"
proof (induction rule: rpath.induct)
  case (rpath_here a)
  show ?case by (rule rpath.intros)
next
  case (rpath_down a q)
  let ?l = "last (leaves (s ! a))"
  have "?l \<in> set (leaves (s ! a))" using rpath_down.hyps(1) by simp
  with assms rpath_down.prems have l: "?l < length s" by (auto simp: leaves_inv_def)
  show ?case
  proof (cases "a = q")
    case True
    then show ?thesis by (auto intro: rpath.intros)
  next
    case False
    with rpath_down.prems have "leaves (attach_at s q w ! a) = leaves (s ! a)"
      by (simp add: attach_fields)
    with rpath_down.IH [OF l] rpath_down.hyps(1) show ?thesis
      by (auto intro: rpath.intros)
  qed
qed

lemma rpath_attach_new:
  assumes "leaves_inv s" and "rpath s 0 q" and "q < length s" and "s \<noteq> []"
  shows "rpath (attach_at s q w) 0 (length s)"
proof -
  let ?s' = "attach_at s q w"
  have 1: "rpath ?s' 0 q" using rpath_attach [OF assms(1,2)] assms(4) by simp
  have "leaves (?s' ! q) = leaves (s ! q) @ [length s]" using assms(3) by (simp add: attach_fields)
  then have "leaves (?s' ! q) \<noteq> []" "last (leaves (?s' ! q)) = length s" by simp_all
  then have 2: "rpath ?s' q (length s)"
    using rpath.rpath_down [of ?s' q "length s"] rpath.rpath_here [of ?s' "length s"] by simp
  from 1 2 show ?thesis by (rule rpath_trans)
qed

lemma climb_ok:
  assumes shape: "shape_inv s" and lv: "leaves_inv s"
  shows "pv < length s \<Longrightarrow> rpath s 0 pv \<Longrightarrow>
         \<exists>q. climb s i pv = Some (Inr q) \<and> q < length s \<and> rpath s 0 q \<and>
             (q = 0 \<or> tree_indent (s ! q) < i)"
proof (induction pv rule: less_induct)
  case (less pv)
  show ?case
  proof (cases "i \<le> tree_indent (s ! pv) \<and> 0 < depth (s ! pv)")
    case False
    then have c: "climb s i pv = Some (Inr pv)" by (subst climb.simps) auto
    have "pv = 0 \<or> tree_indent (s ! pv) < i"
    proof (cases "pv = 0")
      case True then show ?thesis by simp
    next
      case n0: False
      with shape less.prems(1) have "0 < depth (s ! pv)" by (simp add: shape_inv_def)
      with False show ?thesis by auto
    qed
    with c less.prems show ?thesis by simp
  next
    case True
    with shape have n0: "pv \<noteq> 0" by (auto simp: shape_inv_def)
    with shape less.prems(1) obtain p where p: "p < pv" "parent (s ! pv) = Some p"
      by (auto simp: shape_inv_def)
    from shape have "0 < length s" by (simp add: shape_inv_def)
    from rpath_parent [OF lv less.prems(2) this] n0 p have rp: "rpath s 0 p" by auto
    have c: "climb s i pv = climb s i p" using True p by (subst climb.simps) simp
    from less.IH [OF p(1) _ rp] p(1) less.prems(1) c show ?thesis by simp
  qed
qed

section \<open>The loop of sqlptree\<close>

lemma shape_attach:
  assumes "shape_inv s" and "q < length s"
  shows "shape_inv (attach_at s q (new_tree s q ln toks abstract))"
proof -
  let ?w = "new_tree s q ln toks abstract"
  let ?s' = "attach_at s q ?w"
  from assms have n: "0 < length s" by (simp add: shape_inv_def)
  from assms have dq: "0 \<le> depth (s ! q)" by (cases "q = 0") (auto simp: shape_inv_def)
  have root: "parent (?s' ! 0) = None" "depth (?s' ! 0) = 0"
    using assms n by (simp_all add: attach_fields shape_inv_def)
  have rest: "0 < depth (?s' ! a) \<and> (\<exists>p<a. parent (?s' ! a) = Some p)"
    if a: "0 < a" "a < length ?s'" for a
  proof (cases "a < length s")
    case True
    with assms a show ?thesis by (simp add: attach_fields shape_inv_def)
  next
    case False
    with a have "a = length s" by simp
    with dq assms(2) show ?thesis by (simp add: attach_nth_new new_tree_def)
  qed
  have "?s' \<noteq> []" by (simp add: attach_at_def)
  with root rest show ?thesis unfolding shape_inv_def by blast
qed

lemma leaves_attach:
  assumes "leaves_inv s" and "q < length s"
  shows "leaves_inv (attach_at s q (new_tree s q ln toks abstract))"
proof -
  let ?w = "new_tree s q ln toks abstract"
  let ?s' = "attach_at s q ?w"
  have "l < length ?s' \<and> parent (?s' ! l) = Some a"
    if a: "a < length ?s'" and l: "l \<in> set (leaves (?s' ! a))" for a l
  proof (cases "a < length s")
    case True
    show ?thesis
    proof (cases "l = length s")
      case ln: True
      with l True assms have "a = q" by (auto simp: attach_fields leaves_inv_def split: if_splits)
      with ln show ?thesis by (simp add: attach_nth_new new_tree_def)
    next
      case False
      with l True have "l \<in> set (leaves (s ! a))" by (auto simp: attach_fields split: if_splits)
      with assms True have "l < length s" "parent (s ! l) = Some a" by (auto simp: leaves_inv_def)
      then show ?thesis by (simp add: attach_fields)
    qed
  next
    case False
    with a have "a = length s" by simp
    with l show ?thesis by (simp add: attach_nth_new new_tree_def)
  qed
  then show ?thesis unfolding leaves_inv_def by blast
qed

lemma indent_attach:
  assumes "indent_inv s" and "shape_inv s" and "q < length s"
    and "q = 0 \<or> tree_indent (s ! q) < line_indent toks"
  shows "indent_inv (attach_at s q (new_tree s q ln toks abstract))"
proof -
  let ?w = "new_tree s q ln toks abstract"
  let ?s' = "attach_at s q ?w"
  have "tree_indent (?s' ! p) < tree_indent (?s' ! a)"
    if a: "a < length ?s'" and p: "parent (?s' ! a) = Some p" and p0: "p \<noteq> 0" for a p
  proof (cases "a < length s")
    case True
    with p have pa: "parent (s ! a) = Some p" by (simp add: attach_fields)
    with assms(2) True have "p < a" by (cases "a = 0") (auto simp: shape_inv_def)
    with True have "p < length s" by simp
    with True pa p0 assms(1) show ?thesis by (simp add: tree_indent_attach indent_inv_def)
  next
    case False
    with a have al: "a = length s" by simp
    with p have "p = q" by (simp add: attach_nth_new new_tree_def)
    with al p0 assms(3,4) show ?thesis
      by (simp add: attach_nth_new tree_indent_attach tree_indent_new)
  qed
  then show ?thesis unfolding indent_inv_def by blast
qed

lemma tree_inv_step:
  assumes "tree_inv s pv"
  shows "\<exists>q. climb s (line_indent toks) pv = Some (Inr q) \<and> q < length s \<and>
            tree_inv (attach_at s q (new_tree s q ln toks abstract)) (length s)"
proof -
  from assms have inv: "shape_inv s" "leaves_inv s" "indent_inv s" "pv < length s" "rpath s 0 pv"
    "reach (length s) s (leaves (s ! 0)) = Some [1..<length s]"
    by (simp_all add: tree_inv_def)
  from climb_ok [OF inv(1,2,4,5), of "line_indent toks"] obtain q where
    q: "climb s (line_indent toks) pv = Some (Inr q)" "q < length s" "rpath s 0 q"
       "q = 0 \<or> tree_indent (s ! q) < line_indent toks" by blast
  from inv(1) have ne: "s \<noteq> []" by (simp add: shape_inv_def)
  have "tree_inv (attach_at s q (new_tree s q ln toks abstract)) (length s)"
    unfolding tree_inv_def
    using shape_attach [OF inv(1) q(2)] leaves_attach [OF inv(2) q(2)]
      indent_attach [OF inv(3) inv(1) q(2) q(4)] rpath_attach_new [OF inv(2) q(3) q(2) ne]
      reach_attach_root [OF inv(6) q(3) ne]
    by simp
  with q show ?thesis by blast
qed

lemma sqlptree_loop_rule:
  assumes "I s pv"
    and step: "\<And>s pv ln toks. I s pv \<Longrightarrow>
           (abstract \<longrightarrow> toks \<noteq> [] \<and> (\<forall>t\<in>set toks. kind t \<noteq> WHITESPACE)) \<Longrightarrow>
           \<exists>q. climb s (line_indent toks) pv = Some (Inr q) \<and> q < length s \<and>
               I (attach_at s q (new_tree s q ln toks abstract)) (length s)"
  shows "\<exists>s' pv'. sqlptree_loop abstract s pv lines = Some (Inr s') \<and> I s' pv'"
  using assms(1)
proof (induction lines arbitrary: s pv)
  case Nil
  then show ?case by auto
next
  case (Cons line lines)
  obtain ln toks0 where line: "line = (ln, toks0)" by (cases line)
  let ?toks = "if abstract then ignore_token toks0 else toks0"
  show ?case
  proof (cases "abstract \<and> ?toks = []")
    case True
    then have "abstract" and "ignore_token toks0 = []" by (auto split: if_splits)
    then have "sqlptree_loop abstract s pv (line # lines) = sqlptree_loop abstract s pv lines"
      using line by (simp add: Let_def)
    with Cons.IH [OF Cons.prems] show ?thesis by simp
  next
    case False
    have "abstract \<longrightarrow> ?toks \<noteq> [] \<and> (\<forall>t\<in>set ?toks. kind t \<noteq> WHITESPACE)"
      using False by (auto simp: ignore_token_def)
    from step [OF Cons.prems this, of ln] obtain q where
      q: "climb s (line_indent ?toks) pv = Some (Inr q)" "q < length s"
         "I (attach_at s q (new_tree s q ln ?toks abstract)) (length s)" by blast
    have init: "SyntaxTree_init (depth (s ! q) + 1) (int ln + 1) (Some ?toks) (Some q) abstract
                = Inr (new_tree s q ln ?toks abstract)"
      by (simp add: SyntaxTree_init_def Node_init_def new_tree_def)
    have "sqlptree_loop abstract s pv (line # lines) =
          sqlptree_loop abstract (attach_at s q (new_tree s q ln ?toks abstract)) (length s) lines"
      using False q(1,2) init line
      by (simp add: Let_def line_indent_def [symmetric] add_leaf_attach del: sqlptree_loop.simps(1))
    with Cons.IH [OF q(3)] show ?thesis by simp
  qed
qed

lemma map_tokens_add_leaf:
  "map (\<lambda>t. tokens (node t)) (add_leaf s a l) = map (\<lambda>t. tokens (node t)) s"
  by (cases "a < length s")
    (simp_all add: add_leaf_def map_update list_update_same_conv list_update_beyond)

lemma sqlptree_loop_tokens:
  "sqlptree_loop abstract s pv lines = Some (Inr s') \<Longrightarrow>
   map (\<lambda>t. tokens (node t)) s' =
     map (\<lambda>t. tokens (node t)) s @ retained abstract (map snd lines)"
proof (induction lines arbitrary: s pv)
  case Nil
  then show ?case by (simp add: retained_def)
next
  case (Cons line lines)
  obtain ln toks0 where line: "line = (ln, toks0)" by (cases line)
  let ?toks = "if abstract then ignore_token toks0 else toks0"
  have ret: "retained abstract (map snd (line # lines)) =
        (if abstract \<and> ?toks = [] then [] else [?toks]) @ retained abstract (map snd lines)"
    using line by (simp add: retained_def)
  show ?case
  proof (cases "abstract \<and> ?toks = []")
    case True
    then have ae: "abstract" "ignore_token toks0 = []" by (auto split: if_splits)
    then have "sqlptree_loop abstract s pv (line # lines) = sqlptree_loop abstract s pv lines"
      using line by (simp add: Let_def)
    with Cons.prems have "sqlptree_loop abstract s pv lines = Some (Inr s')" by simp
    from Cons.IH [OF this] ret ae show ?thesis by simp
  next
    case False
    with Cons.prems line obtain q t where
      t: "SyntaxTree_init (depth (s ! q) + 1) (int ln + 1) (Some ?toks) (Some q) abstract = Inr t"
      and rest: "sqlptree_loop abstract (add_leaf (s @ [t]) q (length s)) (length s) lines
                 = Some (Inr s')"
      by (auto simp: Let_def split: option.splits sum.splits if_splits)
    from t have "tokens (node t) = ?toks"
      by (auto simp: SyntaxTree_init_def Node_init_def split: if_splits)
    with Cons.IH [OF rest] ret False show ?thesis
      by (simp add: map_tokens_add_leaf)
  qed
qed

lemma tree_inv_root:
  "tree_inv [\<lparr>depth = 0, leaves = [], parent = None, node = \<lparr>line_num = 0, tokens = []\<rparr>,
             is_abstract = abstract\<rparr>] 0"
  by (auto simp: tree_inv_def shape_inv_def leaves_inv_def indent_inv_def intro: rpath.intros)

lemma sqlptree_tree_inv:
  "\<exists>s pv. sqlptree parse_sql sql abstract ''StandardSQL'' = Some (Inr s) \<and> tree_inv s pv \<and>
     map (\<lambda>t. tokens (node t)) s = [] # retained abstract (parse_sql sql)"
proof -
  let ?root = "\<lparr>depth = 0, leaves = [], parent = None, node = \<lparr>line_num = 0, tokens = []\<rparr>,
               is_abstract = abstract\<rparr>"
  have eq: "sqlptree parse_sql sql abstract ''StandardSQL'' =
        sqlptree_loop abstract [?root] 0 (List.enumerate 0 (parse_sql sql))"
    by (simp add: sqlptree_def SyntaxTree_init_def Node_init_def)
  from sqlptree_loop_rule [of tree_inv, OF tree_inv_root tree_inv_step]
  obtain s pv where s: "sqlptree_loop abstract [?root] 0 (List.enumerate 0 (parse_sql sql))
        = Some (Inr s)" "tree_inv s pv"
    by blast
  from sqlptree_loop_tokens [OF s(1)] have
    "map (\<lambda>t. tokens (node t)) s = [] # retained abstract (parse_sql sql)" by simp
  with eq s show ?thesis by auto
qed

section \<open>Lines and their texts\<close>





section \<open>The examples, evaluated\<close>

lemma sqlptree_store0: "sqlptree parse_words sql0 False ''StandardSQL'' = Some (Inr store0)"
  by code_simp

lemma sqlptree_store2: "sqlptree parse_words sql0 True ''StandardSQL'' = Some (Inr store2)"
  by code_simp


section \<open>Round trip\<close>




section \<open>Indents of parent and child\<close>

text \<open>
  Claim C3, as stated, fails: the tree of the one line \<open>select\<close> has a node, other than the
  root, whose indent, 0, is not greater than the indent of its parent, the root, also 0.
\<close>

theorem root_child_indent_counterexample:
  "sqlptree parse_words ''select'' False ''StandardSQL'' = Some (Inr store1)
   \<and> parent (store1 ! 1) = Some 0
   \<and> \<not> tree_indent (store1 ! 0) < tree_indent (store1 ! 1)"
  by code_simp

text \<open>
  Claim C3, amended. \<open>sqlptree\<close> returns a tree, and in it the indent of every node whose
  parent is not the root is strictly greater than the indent of its parent. (The objects of
  the store are the root, at 0, and the nodes of the tree.)
\<close>

theorem nested_indent:
  "\<exists>s. sqlptree parse_sql sql abstract ''StandardSQL'' = Some (Inr s) \<and>
       (\<forall>a p. a < length s \<and> parent (s ! a) = Some p \<and> p \<noteq> 0 \<longrightarrow>
              tree_indent (s ! p) < tree_indent (s ! a))"
  using sqlptree_tree_inv [of parse_sql sql abstract]
  by (auto simp: tree_inv_def indent_inv_def)

theorem nested_indent_witness:
  "sqlptree parse_words sql0 False ''StandardSQL'' = Some (Inr store0)
   \<and> 2 < length store0 \<and> parent (store0 ! 2) = Some 1
   \<and> tree_indent (store0 ! 1) < tree_indent (store0 ! 2)"
proof -
  from nested_indent [of parse_words sql0 False] sqlptree_store0 have
    all: "\<forall>a p. a < length store0 \<and> parent (store0 ! a) = Some p \<and> p \<noteq> 0 \<longrightarrow>
            tree_indent (store0 ! p) < tree_indent (store0 ! a)" by simp
  have a: "2 < length store0" "parent (store0 ! 2) = Some 1" by (simp_all add: store0_def)
  with all have "tree_indent (store0 ! 1) < tree_indent (store0 ! 2)" by blast
  with a sqlptree_store0 show ?thesis by simp
qed

section \<open>Abstract trees\<close>

lemma flat_climb:
  assumes "flat_inv s" and "pv < length s"
  shows "climb s 0 pv = Some (Inr 0)"
proof -
  have 0: "climb s 0 0 = Some (Inr 0)" using assms(1) by (subst climb.simps) (simp add: flat_inv_def)
  show ?thesis
  proof (cases "pv = 0")
    case True with 0 show ?thesis by simp
  next
    case False
    with assms have pv: "parent (s ! pv) = Some 0" "depth (s ! pv) = 1"
      "\<forall>t\<in>set (tokens (node (s ! pv))). kind t \<noteq> WHITESPACE"
      by (simp_all add: flat_inv_def)
    then have "tree_indent (s ! pv) = 0" by (simp add: tree_indent_def node_indent_no_ws)
    with pv have "climb s 0 pv = climb s 0 0" by (subst climb.simps) simp
    with 0 show ?thesis by simp
  qed
qed

lemma flat_step:
  assumes "flat_inv s \<and> pv < length s"
    and "True \<longrightarrow> toks \<noteq> [] \<and> (\<forall>t\<in>set toks. kind t \<noteq> WHITESPACE)"
  shows "\<exists>q. climb s (line_indent toks) pv = Some (Inr q) \<and> q < length s \<and>
            (flat_inv (attach_at s q (new_tree s q ln toks True)) \<and>
             length s < length (attach_at s q (new_tree s q ln toks True)))"
proof -
  from assms have inv: "flat_inv s" and pv: "pv < length s"
    and nows: "\<forall>t\<in>set toks. kind t \<noteq> WHITESPACE" by simp_all
  from inv have n: "0 < length s" by (simp add: flat_inv_def)
  have c: "climb s (line_indent toks) pv = Some (Inr 0)"
    using flat_climb [OF inv pv] nows by (simp add: line_indent_no_ws)
  let ?s' = "attach_at s 0 (new_tree s 0 ln toks True)"
  have up: "[1..<length s] @ [length s] = [1..<Suc (length s)]" using n by (cases s) simp_all
  from inv have "depth (s ! 0) = 0" "leaves (s ! 0) = [1..<length s]"
    by (simp_all add: flat_inv_def)
  then have root: "depth (?s' ! 0) = 0" "leaves (?s' ! 0) = [1..<length ?s']"
    using n by (simp_all only: attach_fields attach_length up refl if_True)
  have rest: "parent (?s' ! a) = Some 0 \<and> depth (?s' ! a) = 1 \<and> leaves (?s' ! a) = [] \<and>
        (\<forall>t\<in>set (tokens (node (?s' ! a))). kind t \<noteq> WHITESPACE)"
    if a: "0 < a" "a < length ?s'" for a
  proof (cases "a < length s")
    case True
    with a inv show ?thesis by (simp add: attach_fields flat_inv_def)
  next
    case False
    with a have "a = length s" by simp
    with inv nows show ?thesis by (simp add: attach_nth_new new_tree_def flat_inv_def)
  qed
  have "?s' \<noteq> []" by (simp add: attach_at_def)
  with root rest have "flat_inv ?s'" unfolding flat_inv_def by blast
  with c n show ?thesis by auto
qed

text \<open>
  Claim C10. With \<open>is_abstract=True\<close>, \<open>sqlptree\<close> returns a tree whose nodes are made of the
  lines with their WHITESPACE tokens removed, the lines left empty being skipped; no node has
  a WHITESPACE token, every node has indent 0, the root as its parent, depth 1 and no leaves:
  the nodes are the leaves of the root, in the order of the lines.
\<close>

theorem abstract_tree_flat:
  "\<exists>s. sqlptree parse_sql sql True ''StandardSQL'' = Some (Inr s) \<and>
       map (\<lambda>t. tokens (node t)) (tl s) =
         filter (\<lambda>ts. ts \<noteq> []) (map ignore_token (parse_sql sql)) \<and>
       depth (s ! 0) = 0 \<and> leaves (s ! 0) = [1..<length s] \<and>
       (\<forall>a. 0 < a \<and> a < length s \<longrightarrow>
          (\<forall>t\<in>set (tokens (node (s ! a))). kind t \<noteq> WHITESPACE) \<and>
          tree_indent (s ! a) = 0 \<and> parent (s ! a) = Some 0 \<and> depth (s ! a) = 1 \<and>
          leaves (s ! a) = [])"
proof -
  let ?root = "\<lparr>depth = 0, leaves = [], parent = None, node = \<lparr>line_num = 0, tokens = []\<rparr>,
               is_abstract = True\<rparr>"
  let ?I = "\<lambda>s pv. flat_inv s \<and> pv < length s"
  have eq: "sqlptree parse_sql sql True ''StandardSQL'' =
        sqlptree_loop True [?root] 0 (List.enumerate 0 (parse_sql sql))"
    by (simp add: sqlptree_def SyntaxTree_init_def Node_init_def)
  have init: "?I [?root] 0" by (auto simp: flat_inv_def)
  from sqlptree_loop_rule [of ?I, OF init flat_step]
  obtain s pv where s: "sqlptree_loop True [?root] 0 (List.enumerate 0 (parse_sql sql))
        = Some (Inr s)" and inv: "flat_inv s"
    by blast
  from sqlptree_loop_tokens [OF s] have
    "tl (map (\<lambda>t. tokens (node t)) s) = retained True (parse_sql sql)"
    by simp
  then have "map (\<lambda>t. tokens (node t)) (tl s) = retained True (parse_sql sql)"
    by (simp only: map_tl)
  then have toks: "map (\<lambda>t. tokens (node t)) (tl s) =
      filter (\<lambda>ts. ts \<noteq> []) (map ignore_token (parse_sql sql))"
    by (simp add: retained_def)
  have "tree_indent (s ! a) = 0" if "0 < a" "a < length s" for a
    using inv that by (simp add: flat_inv_def tree_indent_def node_indent_no_ws)
  with inv toks eq s show ?thesis by (auto simp: flat_inv_def)
qed

theorem abstract_tree_flat_witness:
  "sqlptree parse_words sql0 True ''StandardSQL'' = Some (Inr store2)
   \<and> 0 < (2::nat) \<and> 2 < length store2
   \<and> tree_indent (store2 ! 2) = 0 \<and> parent (store2 ! 2) = Some 0 \<and> depth (store2 ! 2) = 1
   \<and> leaves (store2 ! 2) = [] \<and> leaves (store2 ! 0) = [1..<length store2]"
proof -
  from abstract_tree_flat [of parse_words sql0] sqlptree_store2 have
    all: "\<forall>a. 0 < a \<and> a < length store2 \<longrightarrow>
            (\<forall>t\<in>set (tokens (node (store2 ! a))). kind t \<noteq> WHITESPACE) \<and>
            tree_indent (store2 ! a) = 0 \<and> parent (store2 ! a) = Some 0 \<and>
            depth (store2 ! a) = 1 \<and> leaves (store2 ! a) = []"
    and root: "leaves (store2 ! 0) = [1..<length store2]" by simp_all
  have a: "0 < (2::nat)" "2 < length store2" by (simp_all add: store2_def)
  with all have "tree_indent (store2 ! 2) = 0 \<and> parent (store2 ! 2) = Some 0 \<and>
      depth (store2 ! 2) = 1 \<and> leaves (store2 ! 2) = []" by blast
  with a root sqlptree_store2 show ?thesis by simp
qed

end
